theory Spec2Isabelle
  imports Main "HOL-Library.AList"
begin

section \<open>The image optimiser \<^verbatim>\<open>optimize_images.py\<close>\<close>

text \<open>
  A shallow embedding of the script: the path filter, the two locators, the backup step,
  the conversion step, the reference rewriter (its regular expression and the
  substitution) and the orchestrating \<^verbatim>\<open>main\<close>.

  Conventions of the model.
  \<^item> A path is the list of its components relative to \<^verbatim>\<open>ROOT\<close>
    (\<^verbatim>\<open>path.relative_to(ROOT).parts\<close>); the empty list is \<^verbatim>\<open>ROOT\<close> itself.
  \<^item> The file system below \<^verbatim>\<open>ROOT\<close> is an association list from paths to nodes; its
    order stands for the order in which \<^verbatim>\<open>rglob\<close> walks the tree. Symbolic links are
    not modelled.
  \<^item> A file holds its content (a list of characters) and its modification time.
    Markup is held as decoded text; the regular expression mentions ASCII characters
    only, and the letters of the three extensions have no case variants outside ASCII.
  \<^item> Every exception the script can raise from the modelled calls is a value of
    \<open>exn\<close>; a run ends \<open>Finished\<close> or \<open>Aborted\<close> by an exception nobody caught.
  \<^item> Pillow is a parameter \<open>codec\<close>: from the quality and the bytes of the source to
    the bytes of the WebP file, or \<open>None\<close> when opening, converting or saving raises.
  \<^item> The calls the script makes on the files of the project are recorded in a trace.
\<close>

subsection \<open>Settings\<close>

definition QUALITY :: nat where "QUALITY = 82"
definition BACKUP_DIR :: string where "BACKUP_DIR = ''backup_images''"
definition IMG_EXTS :: "string set" where
  "IMG_EXTS = {''.jpg'', ''.jpeg'', ''.png''}"
definition SKIP_DIRS :: "string set" where
  "SKIP_DIRS = {BACKUP_DIR, ''.git'', ''node_modules'', ''__pycache__''}"

subsection \<open>Characters\<close>

text \<open>The double and the single quote, and \<^verbatim>\<open>str.lower\<close> on ASCII letters.\<close>

definition dq :: char where "dq = CHR 0x22"
definition sq :: char where "sq = CHR 0x27"

definition is_quote :: "char \<Rightarrow> bool" where
  "is_quote c \<longleftrightarrow> c = dq \<or> c = sq"

definition lower_chr :: "char \<Rightarrow> char" where
  "lower_chr c =
     (case map_of (zip ''ABCDEFGHIJKLMNOPQRSTUVWXYZ'' ''abcdefghijklmnopqrstuvwxyz'') c of
        Some l \<Rightarrow> l
      | None \<Rightarrow> c)"

subsection \<open>The pattern of \<^verbatim>\<open>patch_html_files\<close>\<close>

text \<open>
  The pattern is
  \<^verbatim>\<open>(["'])([^"']+?)(e1|e2|e3)(["'])\<close> with \<^verbatim>\<open>re.IGNORECASE\<close>, where
  \<^verbatim>\<open>e1|e2|e3\<close> are the escaped members of the set \<^verbatim>\<open>IMG_EXTS\<close> in the order in
  which Python iterates the set. That order is not fixed by the language, so it is the
  parameter \<open>es\<close> of the matcher; the theorems assume \<open>set es = IMG_EXTS\<close> only.

  The matcher follows the backtracking search of \<^verbatim>\<open>re\<close>: \<open>match_lit\<close> matches one
  escaped extension ignoring case, \<open>match_ext_quote\<close> tries the alternatives in order,
  each followed by group 4, \<open>match_body\<close> is the lazy \<^verbatim>\<open>[^"']+?\<close> (one character,
  then the rest of the pattern, then one character more), and \<open>match_at\<close> is a match
  attempt at the start of the remaining text. A match is returned as its four groups and
  the text after it.
\<close>

fun match_lit :: "string \<Rightarrow> string \<Rightarrow> (string \<times> string) option" where
  "match_lit [] s = Some ([], s)"
| "match_lit (p # ps) [] = None"
| "match_lit (p # ps) (c # cs) =
     (if lower_chr c = lower_chr p
      then (case match_lit ps cs of Some (m, r) \<Rightarrow> Some (c # m, r) | None \<Rightarrow> None)
      else None)"

fun match_ext_quote :: "string list \<Rightarrow> string \<Rightarrow> (string \<times> char \<times> string) option" where
  "match_ext_quote [] s = None"
| "match_ext_quote (e # es) s =
     (case match_lit e s of
        Some (m, q # r) \<Rightarrow> if is_quote q then Some (m, q, r) else match_ext_quote es s
      | _ \<Rightarrow> match_ext_quote es s)"

fun match_body :: "string list \<Rightarrow> string \<Rightarrow> (string \<times> string \<times> char \<times> string) option" where
  "match_body es [] = None"
| "match_body es (c # cs) =
     (if is_quote c then None
      else (case match_ext_quote es cs of
              Some (m, q, r) \<Rightarrow> Some ([c], m, q, r)
            | None \<Rightarrow> (case match_body es cs of
                          Some (b, m, q, r) \<Rightarrow> Some (c # b, m, q, r)
                        | None \<Rightarrow> None)))"

definition match_at :: "string list \<Rightarrow> string \<Rightarrow> (char \<times> string \<times> string \<times> char \<times> string) option" where
  "match_at es s =
     (case s of
        [] \<Rightarrow> None
      | q # cs \<Rightarrow> if is_quote q
                  then (case match_body es cs of
                          Some (b, m, q2, r) \<Rightarrow> Some (q, b, m, q2, r)
                        | None \<Rightarrow> None)
                  else None)"

lemma match_lit_len: "match_lit p s = Some (m, r) \<Longrightarrow> length r \<le> length s"
  by (induction p s arbitrary: m r rule: match_lit.induct) (auto split: if_splits option.splits)

lemma match_ext_quote_len: "match_ext_quote es s = Some (m, q, r) \<Longrightarrow> length r < length s"
  by (induction es) (auto split: option.splits list.splits if_splits prod.splits dest: match_lit_len)

lemma match_body_len: "match_body es s = Some (b, m, q, r) \<Longrightarrow> length r < length s"
  by (induction s arbitrary: b) (fastforce split: option.splits if_splits prod.splits dest: match_ext_quote_len)+

lemma match_at_len: "match_at es s = Some (q, b, m, q2, r) \<Longrightarrow> length r < length s"
  by (auto simp: match_at_def split: list.splits if_splits option.splits dest: match_body_len)

text \<open>
  \<^verbatim>\<open>pattern.sub(lambda m: m.group(1) + m.group(2) + ".webp" + m.group(4), text)\<close>:
  the text is scanned from the left; where the pattern matches, the replacement is
  emitted and the scan goes on after the match; elsewhere one character is copied. A
  match of this pattern is never empty.
\<close>

function sub_text :: "string list \<Rightarrow> string \<Rightarrow> string" where
  "sub_text es s =
     (case match_at es s of
        Some (q1, b, m, q2, r) \<Rightarrow> q1 # b @ ''.webp'' @ q2 # sub_text es r
      | None \<Rightarrow> (case s of [] \<Rightarrow> [] | c # cs \<Rightarrow> c # sub_text es cs))"
  by pat_completeness auto
termination
  by (relation "measure (\<lambda>(es, s). length s)") (auto dest: match_at_len)

declare sub_text.simps [simp del]

text \<open>
  The shape the specification describes, stated on its own: an opening quote, a
  non-empty body without quotes, an extension that is one of \<^verbatim>\<open>IMG_EXTS\<close> up to
  case, and a closing quote of either kind. \<open>has_quoted_ext\<close> says that a text
  contains a substring of that shape.
\<close>

definition shape :: "char \<Rightarrow> string \<Rightarrow> string \<Rightarrow> char \<Rightarrow> bool" where
  "shape q1 b e q2 \<longleftrightarrow>
     is_quote q1 \<and> b \<noteq> [] \<and> \<not> list_ex is_quote b \<and> map lower_chr e \<in> IMG_EXTS \<and> is_quote q2"

definition has_quoted_ext :: "string \<Rightarrow> bool" where
  "has_quoted_ext t \<longleftrightarrow>
     (\<exists>pre q1 b e q2 r. t = pre @ q1 # b @ e @ q2 # r \<and> shape q1 b e q2)"

text \<open>
  A quoted substring in the narrower sense of two quotes of the same kind: some text
  that ends in an old extension stands between a quote and the next occurrence of that
  same quote, whatever else the text holds.
\<close>

definition matching_quoted_ext :: "string \<Rightarrow> bool" where
  "matching_quoted_ext t \<longleftrightarrow>
     (\<exists>pre q b e r. t = pre @ q # b @ e @ q # r \<and> is_quote q \<and> map lower_chr e \<in> IMG_EXTS)"

text \<open>
  \<open>abut_free es s\<close>: along the scan of \<open>s\<close>, the closing quote of a match never opens
  a further occurrence of the pattern in the text that follows it.
\<close>

function abut_free :: "string list \<Rightarrow> string \<Rightarrow> bool" where
  "abut_free es s =
     (case match_at es s of
        Some (q1, b, m, q2, r) \<Rightarrow> match_at es (q2 # r) = None \<and> abut_free es r
      | None \<Rightarrow> (case s of [] \<Rightarrow> True | c # cs \<Rightarrow> abut_free es cs))"
  by pat_completeness auto
termination
  by (relation "measure (\<lambda>(es, s). length s)") (auto dest: match_at_len)

declare abut_free.simps [simp del]

subsection \<open>Paths and the file system\<close>

type_synonym path = "string list"

datatype node = File (content: string) (mtime: nat) | Dir

type_synonym tree = "(path \<times> node) list"

datatype exn = FileNotFoundError | FileExistsError | NotADirectoryError | IsADirectoryError
  | ValueError | ZeroDivisionError | CodecError | SystemExit

type_synonym codec = "nat \<Rightarrow> string \<Rightarrow> string option"

text \<open>
  \<^verbatim>\<open>Path.name\<close>, \<^verbatim>\<open>Path.suffix\<close> (the text from the last dot of the name, unless
  that dot is the first or the last character) and \<^verbatim>\<open>Path.with_suffix\<close>, which raises
  \<^verbatim>\<open>ValueError\<close> on an empty name.
\<close>

fun rfind :: "char \<Rightarrow> string \<Rightarrow> nat option" where
  "rfind c [] = None"
| "rfind c (x # xs) =
     (case rfind c xs of
        Some i \<Rightarrow> Some (Suc i)
      | None \<Rightarrow> if x = c then Some 0 else None)"

definition name_of :: "path \<Rightarrow> string" where
  "name_of p = (if p = [] then [] else last p)"

definition suffix_of :: "path \<Rightarrow> string" where
  "suffix_of p =
     (let name = name_of p in
      case rfind (CHR ''.'') name of
        None \<Rightarrow> []
      | Some i \<Rightarrow> if 0 < i \<and> i + 1 < length name then drop i name else [])"

definition with_suffix :: "path \<Rightarrow> string \<Rightarrow> exn + path" where
  "with_suffix p suf =
     (let name = name_of p in
      if name = [] then Inl ValueError
      else Inr (butlast p @ [take (length name - length (suffix_of p)) name @ suf]))"

text \<open>\<^verbatim>\<open>should_skip\<close>: \<^verbatim>\<open>any(part in SKIP_DIRS for part in path.parts)\<close>.\<close>

definition should_skip :: "path \<Rightarrow> bool" where
  "should_skip p = list_ex (\<lambda>part. part \<in> SKIP_DIRS) p"

text \<open>
  \<^verbatim>\<open>ROOT.rglob("*")\<close> yields every entry below \<^verbatim>\<open>ROOT\<close>, files and directories;
  \<^verbatim>\<open>ROOT.rglob("*.html")\<close> those whose name ends in \<^verbatim>\<open>.html\<close> (\<open>glob_html\<close>).
  \<^verbatim>\<open>find_html_files\<close> does not ask whether the entry is a file.
\<close>

definition rglob :: "tree \<Rightarrow> path list" where
  "rglob t = filter (\<lambda>p. p \<noteq> []) (map fst t)"

definition is_file :: "tree \<Rightarrow> path \<Rightarrow> bool" where
  "is_file t p = (case map_of t p of Some (File c m) \<Rightarrow> True | _ \<Rightarrow> False)"

definition find_images :: "tree \<Rightarrow> path list" where
  "find_images t =
     filter (\<lambda>p. is_file t p \<and> map lower_chr (suffix_of p) \<in> IMG_EXTS \<and> \<not> should_skip p) (rglob t)"

definition glob_html :: "string \<Rightarrow> bool" where
  "glob_html name = (5 \<le> length name \<and> drop (length name - 5) name = ''.html'')"

definition find_html_files :: "tree \<Rightarrow> path list" where
  "find_html_files t = filter (\<lambda>p. glob_html (name_of p) \<and> \<not> should_skip p) (rglob t)"

text \<open>
  \<^verbatim>\<open>dst.parent.mkdir(parents=True, exist_ok=True)\<close>: every missing directory on the way
  is created; a directory that exists is left alone; a regular file in the way raises
  \<^verbatim>\<open>FileExistsError\<close> when it is the directory asked for and \<^verbatim>\<open>NotADirectoryError\<close>
  when it is one of its ancestors.
\<close>

fun mkdirs :: "path list \<Rightarrow> tree \<Rightarrow> exn + tree" where
  "mkdirs [] t = Inr t"
| "mkdirs (d # ds) t =
     (case map_of t d of
        Some Dir \<Rightarrow> mkdirs ds t
      | Some (File c m) \<Rightarrow> Inl (if ds = [] then FileExistsError else NotADirectoryError)
      | None \<Rightarrow> mkdirs ds (AList.update d Dir t))"

definition prefixes_of :: "path \<Rightarrow> path list" where
  "prefixes_of d = map (\<lambda>n. take n d) [1..<Suc (length d)]"

definition mkdir_parents :: "path \<Rightarrow> tree \<Rightarrow> exn + tree" where
  "mkdir_parents d t = mkdirs (prefixes_of d) t"

text \<open>
  \<^verbatim>\<open>backup\<close>: \<open>backup_dst src\<close> is \<^verbatim>\<open>ROOT / BACKUP_DIR / rel\<close>;
  \<^verbatim>\<open>shutil.copy2\<close> copies the content and the modification time, and raises when the
  source is missing or a directory. The result is the tree the call leaves and the
  exception it raised, if any.
\<close>

definition backup_dst :: "path \<Rightarrow> path" where
  "backup_dst src = BACKUP_DIR # src"

definition backup :: "path \<Rightarrow> tree \<Rightarrow> tree \<times> exn option" where
  "backup src t =
     (let dst = backup_dst src in
      case mkdir_parents (butlast dst) t of
        Inl e \<Rightarrow> (t, Some e)
      | Inr t1 \<Rightarrow>
          if map_of t1 dst \<noteq> None then (t1, None)
          else (case map_of t1 src of
                  None \<Rightarrow> (t1, Some FileNotFoundError)
                | Some Dir \<Rightarrow> (t1, Some IsADirectoryError)
                | Some (File c m) \<Rightarrow> (AList.update dst (File c m) t1, None)))"

text \<open>
  \<^verbatim>\<open>convert_to_webp\<close>: the destination is the source with the suffix \<^verbatim>\<open>.webp\<close>;
  the file written gets the time \<open>now\<close>. A failure of the codec leaves the tree as it
  was.
\<close>

definition convert_to_webp :: "codec \<Rightarrow> path \<Rightarrow> nat \<Rightarrow> tree \<Rightarrow> exn + path \<times> tree" where
  "convert_to_webp codec src now t =
     (case with_suffix src ''.webp'' of
        Inl e \<Rightarrow> Inl e
      | Inr dst \<Rightarrow>
          (case map_of t src of
             None \<Rightarrow> Inl FileNotFoundError
           | Some Dir \<Rightarrow> Inl IsADirectoryError
           | Some (File c m) \<Rightarrow>
               (case codec QUALITY c of
                  None \<Rightarrow> Inl CodecError
                | Some w \<Rightarrow>
                    if map_of t dst = Some Dir then Inl IsADirectoryError
                    else Inr (dst, AList.update dst (File w now) t))))"

text \<open>
  \<^verbatim>\<open>stat().st_size\<close>, \<^verbatim>\<open>unlink\<close> and \<^verbatim>\<open>read_text\<close>. The size of a directory is
  left at 0: the loop asks for the size of entries that \<^verbatim>\<open>find_images\<close> found to be
  files.
\<close>

definition st_size :: "tree \<Rightarrow> path \<Rightarrow> exn + nat" where
  "st_size t p =
     (case map_of t p of
        None \<Rightarrow> Inl FileNotFoundError
      | Some (File c m) \<Rightarrow> Inr (length c)
      | Some Dir \<Rightarrow> Inr 0)"

definition unlink :: "path \<Rightarrow> tree \<Rightarrow> exn + tree" where
  "unlink p t =
     (case map_of t p of
        None \<Rightarrow> Inl FileNotFoundError
      | Some Dir \<Rightarrow> Inl IsADirectoryError
      | Some (File c m) \<Rightarrow> Inr (AList.delete p t))"

definition read_text :: "tree \<Rightarrow> path \<Rightarrow> exn + string" where
  "read_text t p =
     (case map_of t p of
        None \<Rightarrow> Inl FileNotFoundError
      | Some Dir \<Rightarrow> Inl IsADirectoryError
      | Some (File c m) \<Rightarrow> Inr c)"

text \<open>The relative path as a string, its backslashes replaced by slashes.\<close>

fun join_parts :: "path \<Rightarrow> string" where
  "join_parts [] = []"
| "join_parts [x] = x"
| "join_parts (x # y # ys) = x @ ''/'' @ join_parts (y # ys)"

definition rel_str :: "path \<Rightarrow> string" where
  "rel_str p = map (\<lambda>c. if c = CHR 0x5C then CHR ''/'' else c) (join_parts p)"

subsection \<open>The run\<close>

text \<open>
  What the script prints (the numbers it formats are left out but for the sizes), the
  calls it makes on project files, and the variables of \<^verbatim>\<open>main\<close>.
\<close>

datatype msg = NothingFound | FoundImages nat | ErrorProcessing string exn
  | Converted string nat nat | UpdatingLinks | HtmlUpdated path | Summary nat nat | PillowMissing

datatype event = EvPrint msg | EvBackup path | EvTranscode path | EvUnlink path
  | EvReadText path | EvWriteText path

record state =
  fs :: tree
  clock :: nat
  trace :: "event list"
  total_before :: nat
  total_after :: nat
  renamed :: "(string \<times> string) list"

datatype outcome = Finished state | Aborted exn state

definition emit :: "event list \<Rightarrow> state \<Rightarrow> state" where
  "emit evs st = st\<lparr>trace := trace st @ evs\<rparr>"

text \<open>
  One turn of the loop of \<^verbatim>\<open>main\<close>. Only \<^verbatim>\<open>convert_to_webp\<close> stands inside the
  \<^verbatim>\<open>try\<close>; the division \<^verbatim>\<open>size_after / size_before\<close> raises on an empty source.
\<close>

definition process_image :: "codec \<Rightarrow> path \<Rightarrow> state \<Rightarrow> outcome" where
  "process_image codec src st =
     (case st_size (fs st) src of
        Inl e \<Rightarrow> Aborted e st
      | Inr size_before \<Rightarrow>
          (case backup src (fs st) of
             (t1, Some e) \<Rightarrow> Aborted e (emit [EvBackup src] (st\<lparr>fs := t1\<rparr>))
           | (t1, None) \<Rightarrow>
               (case convert_to_webp codec src (clock st) t1 of
                  Inl e \<Rightarrow>
                    Finished (emit [EvBackup src, EvTranscode src,
                                    EvPrint (ErrorProcessing (name_of src) e)] (st\<lparr>fs := t1\<rparr>))
                | Inr (dst, t2) \<Rightarrow>
                    (case st_size t2 dst of
                       Inl e \<Rightarrow>
                         Aborted e (emit [EvBackup src, EvTranscode src]
                                      (st\<lparr>fs := t2, clock := Suc (clock st)\<rparr>))
                     | Inr size_after \<Rightarrow>
                         if size_before = 0
                         then Aborted ZeroDivisionError
                                (emit [EvBackup src, EvTranscode src]
                                   (st\<lparr>fs := t2, clock := Suc (clock st)\<rparr>))
                         else (case unlink src t2 of
                                 Inl e \<Rightarrow>
                                   Aborted e (emit [EvBackup src, EvTranscode src, EvUnlink src]
                                                (st\<lparr>fs := t2, clock := Suc (clock st)\<rparr>))
                               | Inr t3 \<Rightarrow>
                                   Finished
                                     (emit [EvBackup src, EvTranscode src, EvUnlink src,
                                            EvPrint (Converted (name_of src) size_before size_after)]
                                        (st\<lparr>fs := t3, clock := Suc (clock st),
                                            total_before := total_before st + size_before,
                                            total_after := total_after st + size_after,
                                            renamed := AList.update (rel_str src) (rel_str dst)
                                                         (renamed st)\<rparr>)))))))"

fun process_all :: "codec \<Rightarrow> path list \<Rightarrow> state \<Rightarrow> outcome" where
  "process_all codec [] st = Finished st"
| "process_all codec (src # rest) st =
     (case process_image codec src st of
        Finished st' \<Rightarrow> process_all codec rest st'
      | Aborted e st' \<Rightarrow> Aborted e st')"

text \<open>
  \<^verbatim>\<open>patch_html_files(html_files, renamed)\<close>. The body never reads \<^verbatim>\<open>renamed\<close>; a
  file is written, at the time of the clock, only when the substitution changed its
  text.
\<close>

fun patch_html_files :: "string list \<Rightarrow> path list \<Rightarrow> (string \<times> string) list \<Rightarrow> state \<Rightarrow> outcome" where
  "patch_html_files es [] rn st = Finished st"
| "patch_html_files es (html_path # rest) rn st =
     (case read_text (fs st) html_path of
        Inl e \<Rightarrow> Aborted e (emit [EvReadText html_path] st)
      | Inr text \<Rightarrow>
          (let new_text = sub_text es text in
           if new_text \<noteq> text
           then patch_html_files es rest rn
                  (emit [EvReadText html_path, EvWriteText html_path, EvPrint (HtmlUpdated html_path)]
                     (st\<lparr>fs := AList.update html_path (File new_text (clock st)) (fs st),
                         clock := Suc (clock st)\<rparr>))
           else patch_html_files es rest rn (emit [EvReadText html_path] st)))"

definition init_state :: "tree \<Rightarrow> nat \<Rightarrow> state" where
  "init_state t now =
     \<lparr>fs = t, clock = now, trace = [], total_before = 0, total_after = 0, renamed = []\<rparr>"

definition main :: "string list \<Rightarrow> codec \<Rightarrow> tree \<Rightarrow> nat \<Rightarrow> outcome" where
  "main es codec t now =
     (let images = find_images t in
      if images = [] then Finished (emit [EvPrint NothingFound] (init_state t now))
      else (case process_all codec images
                   (emit [EvPrint (FoundImages (length images))] (init_state t now)) of
              Aborted e st \<Rightarrow> Aborted e st
            | Finished st1 \<Rightarrow>
                (let html_files = find_html_files (fs st1) in
                 case (if html_files \<noteq> [] \<and> renamed st1 \<noteq> []
                       then patch_html_files es html_files (renamed st1)
                              (emit [EvPrint UpdatingLinks] st1)
                       else Finished st1) of
                   Aborted e st \<Rightarrow> Aborted e st
                 | Finished st2 \<Rightarrow>
                     Finished (emit [EvPrint (Summary (total_before st2) (total_after st2))] st2))))"

text \<open>
  The module level: without Pillow the script prints a hint and raises
  \<^verbatim>\<open>SystemExit(1)\<close> before \<^verbatim>\<open>main\<close> is reached.
\<close>

definition script :: "bool \<Rightarrow> string list \<Rightarrow> codec \<Rightarrow> tree \<Rightarrow> nat \<Rightarrow> outcome" where
  "script pil_installed es codec t now =
     (if pil_installed then main es codec t now
      else Aborted SystemExit (emit [EvPrint PillowMissing] (init_state t now)))"

fun final :: "outcome \<Rightarrow> state" where
  "final (Finished st) = st"
| "final (Aborted e st) = st"

fun raised :: "outcome \<Rightarrow> exn option" where
  "raised (Finished st) = None"
| "raised (Aborted e st) = Some e"

text \<open>
  The project files an event reads, transcodes, deletes or rewrites, and the traces
  that do so outside the skipped directories only.
\<close>

fun touched :: "event \<Rightarrow> path list" where
  "touched (EvPrint m) = []"
| "touched (EvBackup p) = [p]"
| "touched (EvTranscode p) = [p]"
| "touched (EvUnlink p) = [p]"
| "touched (EvReadText p) = [p]"
| "touched (EvWriteText p) = [p]"

definition clean :: "event list \<Rightarrow> bool" where
  "clean evs \<longleftrightarrow> (\<forall>ev\<in>set evs. \<forall>p\<in>set (touched ev). \<not> should_skip p)"

subsection \<open>Inputs of the examples\<close>

definition exts0 :: "string list" where
  "exts0 = [''.png'', ''.jpg'', ''.jpeg'']"

definition codec_ok :: codec where
  "codec_ok q c = Some ''W''"


definition stale_tree :: tree where
  "stale_tree = [([''a.jpg''], File ''NEW'' 5), ([''backup_images''], Dir),
                 ([''backup_images'', ''a.jpg''], File ''OLD'' 1)]"


definition fresh_tree :: tree where
  "fresh_tree = [([''a.jpg''], File ''x'' 7)]"

definition backed_tree :: tree where
  "backed_tree = [([''a.jpg''], File ''x'' 7), ([''backup_images''], Dir),
                  ([''backup_images'', ''a.jpg''], File ''x'' 7)]"

definition edited_tree :: tree where
  "edited_tree = [([''a.jpg''], File ''edited'' 9), ([''backup_images''], Dir),
                  ([''backup_images'', ''a.jpg''], File ''x'' 7)]"





definition quote_tree :: tree where
  "quote_tree = [([''q.html''], File (dq # ''a.jpg'' @ [sq]) 3)]"


definition skipped_tree :: tree where
  "skipped_tree = [([''index.html''], File ''<p>'' 3), ([''.git'', ''x.png''], File ''x'' 0),
                   ([''.git'', ''y.html''], File ''y'' 0), ([''pic.png''], File ''zz'' 0)]"

definition idle_tree :: tree where
  "idle_tree = [([''index.html''], File ''<p>'' 3), ([''backup_images'', ''old.jpg''], File ''x'' 0),
                ([''notes.txt''], File ''n'' 1)]"

definition plain_html :: string where
  "plain_html = ''<a href='' @ [dq] @ ''x.html'' @ [dq] @ ''>.png</a>''"

definition html_tree :: tree where
  "html_tree = [([''index.html''], File plain_html 3),
                ([''b.html''], File (''<img src='' @ [sq] @ ''b.PNG'' @ [sq] @ ''>'') 4)]"

section \<open>Lemmas\<close>

subsection \<open>The pattern\<close>

lemma lower_dq: "lower_chr dq = dq"
  by (simp add: lower_chr_def dq_def)

lemma lower_sq: "lower_chr sq = sq"
  by (simp add: lower_chr_def sq_def)

lemma lower_quote: "is_quote c \<Longrightarrow> lower_chr c = c"
  by (auto simp: is_quote_def lower_dq lower_sq)

lemma lower_jpg: "map lower_chr ''.jpg'' = ''.jpg''"
  by (simp add: lower_chr_def)

lemma lower_jpeg: "map lower_chr ''.jpeg'' = ''.jpeg''"
  by (simp add: lower_chr_def)

lemma lower_png: "map lower_chr ''.png'' = ''.png''"
  by (simp add: lower_chr_def)

lemma lower_IMG_EXTS: "e \<in> IMG_EXTS \<Longrightarrow> map lower_chr e = e"
  unfolding IMG_EXTS_def using lower_jpg lower_jpeg lower_png by blast

lemma IMG_EXTS_no_quote: "e \<in> IMG_EXTS \<Longrightarrow> c \<in> set e \<Longrightarrow> \<not> is_quote c"
  unfolding IMG_EXTS_def is_quote_def dq_def sq_def by auto

lemma ext_no_quote:
  assumes "map lower_chr m \<in> IMG_EXTS" and "c \<in> set m"
  shows "\<not> is_quote c"
proof
  assume q: "is_quote c"
  from assms(2) have "lower_chr c \<in> set (map lower_chr m)" by simp
  with q have "c \<in> set (map lower_chr m)" by (simp add: lower_quote)
  with assms(1) q show False using IMG_EXTS_no_quote by blast
qed

lemma IMG_EXTS_suffix:
  assumes "x \<in> IMG_EXTS" and "y \<in> IMG_EXTS" and "u @ y = x"
  shows "u = []"
proof -
  from assms(3) have "rev y @ rev u = rev x" by (metis rev_append)
  with assms(1,2) show ?thesis unfolding IMG_EXTS_def by auto
qed

lemma first_quote_unique:
  assumes "\<forall>c\<in>set xs. \<not> is_quote c" and "\<forall>c\<in>set ys. \<not> is_quote c"
    and "is_quote q" and "is_quote q'" and "xs @ q # r = ys @ q' # r'"
  shows "xs = ys \<and> q = q' \<and> r = r'"
  using assms
proof (induction xs arbitrary: ys)
  case Nil
  then show ?case by (cases ys) auto
next
  case (Cons x xs)
  then show ?case by (cases ys) auto
qed

lemma ext_suffix_unique:
  assumes e: "map lower_chr e \<in> IMG_EXTS" and e': "map lower_chr e' \<in> IMG_EXTS"
    and eq: "b @ e = b' @ e'"
  shows "b = b' \<and> e = e'"
proof -
  from eq obtain us where "(b = b' @ us \<and> us @ e = e') \<or> (b @ us = b' \<and> e = us @ e')"
    by (auto simp: append_eq_append_conv2)
  then show ?thesis
  proof
    assume a: "b = b' @ us \<and> us @ e = e'"
    then have "map lower_chr us @ map lower_chr e = map lower_chr e'" by auto
    with e e' have "map lower_chr us = []" using IMG_EXTS_suffix by blast
    with a show ?thesis by simp
  next
    assume a: "b @ us = b' \<and> e = us @ e'"
    then have "map lower_chr us @ map lower_chr e' = map lower_chr e" by auto
    with e e' have "map lower_chr us = []" using IMG_EXTS_suffix by blast
    with a show ?thesis by simp
  qed
qed

lemma match_lit_sound:
  "match_lit p s = Some (m, r) \<Longrightarrow> s = m @ r \<and> map lower_chr m = map lower_chr p"
  by (induction p s arbitrary: m r rule: match_lit.induct) (auto split: if_splits option.splits)

lemma match_lit_complete:
  "map lower_chr m = map lower_chr p \<Longrightarrow> match_lit p (m @ r) = Some (m, r)"
  by (induction p arbitrary: m) auto

lemma match_ext_quote_sound:
  "match_ext_quote es s = Some (m, q, r) \<Longrightarrow>
     s = m @ q # r \<and> (\<exists>e\<in>set es. map lower_chr m = map lower_chr e) \<and> is_quote q"
  by (induction es) (auto split: option.splits list.splits if_splits dest: match_lit_sound)

lemma match_ext_quote_complete:
  assumes "set es \<subseteq> IMG_EXTS" and "map lower_chr m \<in> set es" and "is_quote q"
  shows "match_ext_quote es (m @ q # r) = Some (m, q, r)"
  using assms(1,2)
proof (induction es)
  case Nil
  then show ?case by simp
next
  case (Cons e es)
  have mq: "\<forall>c\<in>set m. \<not> is_quote c"
    using Cons.prems ext_no_quote by blast
  show ?case
  proof (cases "match_lit e (m @ q # r)")
    case None
    then have "map lower_chr m \<noteq> map lower_chr e"
      using match_lit_complete by fastforce
    with Cons.prems have "map lower_chr m \<in> set es"
      by (auto simp: lower_IMG_EXTS)
    with Cons None show ?thesis by simp
  next
    case (Some a)
    obtain m' t where a: "a = (m', t)" by (cases a)
    from Some a have s: "m @ q # r = m' @ t" and l: "map lower_chr m' = map lower_chr e"
      using match_lit_sound by blast+
    from l Cons.prems have m'e: "map lower_chr m' \<in> IMG_EXTS" by (auto simp: lower_IMG_EXTS)
    then have m'q: "\<forall>c\<in>set m'. \<not> is_quote c" using ext_no_quote by blast
    show ?thesis
    proof (cases t)
      case Nil
      with s have "m' = m @ q # r" by simp
      with m'q assms(3) show ?thesis by auto
    next
      case (Cons q' r')
      show ?thesis
      proof (cases "is_quote q'")
        case True
        with s Cons mq m'q assms(3) have "m = m' \<and> q = q' \<and> r = r'"
          using first_quote_unique by blast
        with Some a Cons True show ?thesis by simp
      next
        case False
        have "map lower_chr m \<noteq> map lower_chr e"
        proof
          assume "map lower_chr m = map lower_chr e"
          then have "match_lit e (m @ q # r) = Some (m, q # r)" by (rule match_lit_complete)
          with Some a Cons False assms(3) show False by simp
        qed
        with Cons.prems have "map lower_chr m \<in> set es"
          by (auto simp: lower_IMG_EXTS)
        with Cons.IH Cons.prems Some a Cons False \<open>t = q' # r'\<close> show ?thesis by simp
      qed
    qed
  qed
qed


lemma match_body_sound:
  "match_body es s = Some (b, m, q, r) \<Longrightarrow>
     s = b @ m @ q # r \<and> b \<noteq> [] \<and> (\<forall>c\<in>set b. \<not> is_quote c) \<and>
     (\<exists>e\<in>set es. map lower_chr m = map lower_chr e) \<and> is_quote q"
proof (induction s arbitrary: b)
  case Nil
  then show ?case by simp
next
  case (Cons c cs)
  from Cons.prems have nq: "\<not> is_quote c" by (auto split: if_splits)
  show ?case
  proof (cases "match_ext_quote es cs")
    case None
    with Cons.prems nq obtain b' where b': "match_body es cs = Some (b', m, q, r)" and b: "b = c # b'"
      by (auto split: option.splits)
    from Cons.IH [OF b'] b nq show ?thesis by simp
  next
    case (Some a)
    with Cons.prems nq have "a = (m, q, r)" and b: "b = [c]"
      by (auto split: prod.splits)
    with Some have "match_ext_quote es cs = Some (m, q, r)" by simp
    from match_ext_quote_sound [OF this] b nq show ?thesis by simp
  qed
qed

lemma match_body_complete:
  assumes es: "set es \<subseteq> IMG_EXTS" and e: "map lower_chr e \<in> set es" and q: "is_quote q"
  shows "\<not> is_quote c \<Longrightarrow> \<forall>x\<in>set b. \<not> is_quote x \<Longrightarrow>
         match_body es (c # b @ e @ q # r) = Some (c # b, e, q, r)"
proof (induction b arbitrary: c)
  case Nil
  from match_ext_quote_complete [OF es e q] Nil show ?case by simp
next
  case (Cons x b)
  from e es have eq: "\<forall>y\<in>set e. \<not> is_quote y" using ext_no_quote by blast
  have none: "match_ext_quote es ((x # b) @ e @ q # r) = None"
  proof (cases "match_ext_quote es ((x # b) @ e @ q # r)")
    case None
    then show ?thesis .
  next
    case (Some a)
    obtain m' q' r' where a: "a = (m', q', r')" by (cases a)
    from match_ext_quote_sound [OF Some [unfolded a]]
    obtain e' where s: "(x # b) @ e @ q # r = m' @ q' # r'" and e': "e' \<in> set es"
      and l: "map lower_chr m' = map lower_chr e'" and q': "is_quote q'" by blast
    from l e' es have m'e: "map lower_chr m' \<in> IMG_EXTS" by (auto simp: lower_IMG_EXTS)
    then have m'q: "\<forall>y\<in>set m'. \<not> is_quote y" using ext_no_quote by blast
    from Cons.prems eq have "\<forall>y\<in>set ((x # b) @ e). \<not> is_quote y" by auto
    moreover from s have "((x # b) @ e) @ q # r = m' @ q' # r'" by simp
    ultimately have "(x # b) @ e = m'" using first_quote_unique m'q q q' by blast
    then have "(x # b) @ e = [] @ m'" by simp
    moreover from e es have "map lower_chr e \<in> IMG_EXTS" by auto
    ultimately have "x # b = []" using ext_suffix_unique m'e by blast
    then show ?thesis by simp
  qed
  from Cons.prems have "\<not> is_quote x" and "\<forall>y\<in>set b. \<not> is_quote y" by auto
  from Cons.IH [OF this] none Cons.prems(1) show ?case by simp
qed

lemma match_at_shape:
  assumes "set es = IMG_EXTS"
  shows "match_at es s = Some (q1, b, e, q2, r) \<longleftrightarrow> s = q1 # b @ e @ q2 # r \<and> shape q1 b e q2"
proof
  assume m: "match_at es s = Some (q1, b, e, q2, r)"
  then obtain cs where s: "s = q1 # cs" and q1: "is_quote q1"
    and mb: "match_body es cs = Some (b, e, q2, r)"
    by (auto simp: match_at_def split: list.splits if_splits option.splits)
  from match_body_sound [OF mb] assms s q1
  show "s = q1 # b @ e @ q2 # r \<and> shape q1 b e q2"
    by (auto simp: shape_def list_ex_iff lower_IMG_EXTS)
next
  assume a: "s = q1 # b @ e @ q2 # r \<and> shape q1 b e q2"
  then obtain c b' where b: "b = c # b'" by (cases b) (auto simp: shape_def)
  with a have nq: "\<not> is_quote c" "\<forall>x\<in>set b'. \<not> is_quote x"
    by (auto simp: shape_def list_ex_iff)
  from a assms have "set es \<subseteq> IMG_EXTS" "map lower_chr e \<in> set es" "is_quote q2"
    by (auto simp: shape_def)
  from match_body_complete [OF this nq] a b
  show "match_at es s = Some (q1, b, e, q2, r)"
    by (simp add: match_at_def shape_def)
qed


lemma sub_text_Nil: "sub_text es [] = []"
  by (simp add: sub_text.simps match_at_def)

lemma sub_text_None: "match_at es (c # cs) = None \<Longrightarrow> sub_text es (c # cs) = c # sub_text es cs"
  by (subst sub_text.simps) simp

lemma sub_text_Some:
  "match_at es s = Some (q1, b, e, q2, r) \<Longrightarrow>
     sub_text es s = q1 # b @ ''.webp'' @ q2 # sub_text es r"
  by (subst sub_text.simps) simp

lemma match_at_hd: "match_at es (c # cs) = Some (q1, b, e, q2, r) \<Longrightarrow> q1 = c \<and> is_quote c"
  by (auto simp: match_at_def split: if_splits option.splits)

lemma match_at_no_quote: "\<not> is_quote c \<Longrightarrow> match_at es (c # cs) = None"
  by (simp add: match_at_def)

lemma sub_text_hd: "\<exists>t. sub_text es (c # cs) = c # t"
proof (cases "match_at es (c # cs)")
  case None
  then show ?thesis by (simp add: sub_text_None)
next
  case (Some a)
  obtain q1 b e q2 r where "a = (q1, b, e, q2, r)" by (cases a)
  with Some show ?thesis using match_at_hd sub_text_Some by fastforce
qed

lemma sub_text_skip:
  "\<forall>c\<in>set xs. \<not> is_quote c \<Longrightarrow> sub_text es (xs @ ys) = xs @ sub_text es ys"
  by (induction xs) (simp_all add: sub_text_None match_at_no_quote)

lemma webp_no_quote: "c \<in> set ''.webp'' \<Longrightarrow> \<not> is_quote c"
  by (auto simp: is_quote_def dq_def sq_def)

lemma lower_webp: "map lower_chr ''.webp'' = ''.webp''"
  by (simp add: lower_chr_def)

lemma webp_not_suffix:
  assumes "y \<in> IMG_EXTS" and "u @ y = v @ ''.webp''"
  shows False
proof -
  from assms(2) have "rev y @ rev u = rev ''.webp'' @ rev v" by (metis rev_append)
  with assms(1) show False unfolding IMG_EXTS_def by auto
qed

lemma webp_no_match:
  assumes es: "set es = IMG_EXTS" and b: "\<forall>c\<in>set b. \<not> is_quote c" and q2: "is_quote q2"
  shows "match_at es (q1 # b @ ''.webp'' @ q2 # x) = None"
proof (cases "match_at es (q1 # b @ ''.webp'' @ q2 # x)")
  case None
  then show ?thesis .
next
  case (Some a)
  obtain q1' b' e' q2' r' where a: "a = (q1', b', e', q2', r')" by (cases a)
  from Some a es have eq: "q1 # b @ ''.webp'' @ q2 # x = q1' # b' @ e' @ q2' # r'"
    and sh: "shape q1' b' e' q2'" by (simp_all add: match_at_shape)
  from sh have e': "map lower_chr e' \<in> IMG_EXTS" and q2': "is_quote q2'"
    and b': "\<forall>c\<in>set b'. \<not> is_quote c" by (auto simp: shape_def list_ex_iff)
  from e' have "\<forall>c\<in>set e'. \<not> is_quote c" using ext_no_quote by blast
  with b' have 1: "\<forall>c\<in>set (b' @ e'). \<not> is_quote c" by auto
  from b have 2: "\<forall>c\<in>set (b @ ''.webp''). \<not> is_quote c" using webp_no_quote by auto
  from eq have "(b @ ''.webp'') @ q2 # x = (b' @ e') @ q2' # r'" by simp
  from first_quote_unique [OF 2 1 q2 q2' this] have "b @ ''.webp'' = b' @ e'" by simp
  then have "map lower_chr (b' @ e') = map lower_chr (b @ ''.webp'')" by simp
  then have "map lower_chr b' @ map lower_chr e' = map lower_chr b @ ''.webp''"
    by (simp only: map_append lower_webp)
  with e' show ?thesis using webp_not_suffix by blast
qed

lemma match_at_rest:
  assumes es: "set es = IMG_EXTS" and p: "\<forall>x\<in>set p. \<not> is_quote x" and q: "is_quote q"
    and m: "match_at es (c # p @ q # r) = Some (q1, b, e, q2, rr)"
  shows "p = b @ e \<and> q2 = q \<and> rr = r \<and> match_at es (c # p @ q # r') = Some (q1, b, e, q2, r')"
proof -
  from m es have eq: "c # p @ q # r = q1 # b @ e @ q2 # rr" and sh: "shape q1 b e q2"
    by (simp_all add: match_at_shape)
  from sh have e: "map lower_chr e \<in> IMG_EXTS" and q2: "is_quote q2"
    and b: "\<forall>x\<in>set b. \<not> is_quote x" by (auto simp: shape_def list_ex_iff)
  from e have "\<forall>x\<in>set e. \<not> is_quote x" using ext_no_quote by blast
  with b have 1: "\<forall>x\<in>set (b @ e). \<not> is_quote x" by auto
  from eq have "p @ q # r = (b @ e) @ q2 # rr" and c: "c = q1" by simp_all
  from first_quote_unique [OF p 1 q q2 this(1)] have u: "p = b @ e" "q = q2" "r = rr" by simp_all
  with c sh have "c # p @ q # r' = q1 # b @ e @ q2 # r' \<and> shape q1 b e q2" by simp
  with es have "match_at es (c # p @ q # r') = Some (q1, b, e, q2, r')"
    by (simp only: match_at_shape)
  with u show ?thesis by simp
qed

lemma sub_text_first_quote:
  assumes "\<forall>x\<in>set p. \<not> is_quote x"
  shows "\<exists>t. sub_text es (p @ q # r) = p @ q # t"
  using sub_text_skip [OF assms] sub_text_hd by metis

lemma no_quote_sub_text: "\<not> list_ex is_quote cs \<Longrightarrow> sub_text es cs = cs"
  using sub_text_skip [of cs es "[]"] by (simp add: list_ex_iff sub_text_Nil)

lemma match_at_sub_None:
  assumes es: "set es = IMG_EXTS" and n: "match_at es (c # cs) = None"
  shows "match_at es (c # sub_text es cs) = None"
proof (cases "list_ex is_quote cs")
  case False
  with n show ?thesis by (simp add: no_quote_sub_text)
next
  case True
  then obtain p q r where cs: "cs = p @ q # r" and q: "is_quote q"
    and p: "\<forall>x\<in>set p. \<not> is_quote x"
    unfolding list_ex_iff by (metis split_list_first_prop)
  from sub_text_first_quote [OF p] obtain t where t: "sub_text es cs = p @ q # t"
    using cs by blast
  show ?thesis
  proof (cases "match_at es (c # p @ q # t)")
    case None
    with t show ?thesis by simp
  next
    case (Some a)
    obtain q1 b e q2 rr where "a = (q1, b, e, q2, rr)" by (cases a)
    with Some have "match_at es (c # p @ q # t) = Some (q1, b, e, q2, rr)" by simp
    from match_at_rest [OF es p q this, of r]
    have "match_at es (c # p @ q # r) = Some (q1, b, e, q2, r)" by blast
    with n cs show ?thesis by simp
  qed
qed

lemma match_at_sub_Some:
  assumes es: "set es = IMG_EXTS" and m: "match_at es (c # cs) = Some (q1, b, e, q2, r)"
  shows "\<exists>t. sub_text es cs = b @ e @ q2 # t \<and>
             match_at es (c # sub_text es cs) = Some (q1, b, e, q2, t)"
proof -
  from m es have eq: "c # cs = q1 # b @ e @ q2 # r" and sh: "shape q1 b e q2"
    by (simp_all add: match_at_shape)
  from sh have e: "map lower_chr e \<in> IMG_EXTS" and q2: "is_quote q2"
    and b: "\<forall>x\<in>set b. \<not> is_quote x" by (auto simp: shape_def list_ex_iff)
  from e have "\<forall>x\<in>set e. \<not> is_quote x" using ext_no_quote by blast
  with b have 1: "\<forall>x\<in>set (b @ e). \<not> is_quote x" by auto
  from eq have cs: "cs = (b @ e) @ q2 # r" by simp
  from sub_text_first_quote [OF 1] obtain t where t: "sub_text es cs = (b @ e) @ q2 # t"
    using cs by blast
  from m cs have "match_at es (c # (b @ e) @ q2 # r) = Some (q1, b, e, q2, r)" by simp
  from match_at_rest [OF es 1 q2 this, of t]
  have "match_at es (c # (b @ e) @ q2 # t) = Some (q1, b, e, q2, t)" by blast
  with t show ?thesis by simp
qed


lemma ext_not_webp:
  assumes "map lower_chr e \<in> IMG_EXTS"
  shows "e \<noteq> ''.webp''"
proof
  assume "e = ''.webp''"
  with assms have "''.webp'' \<in> IMG_EXTS" by (simp only: lower_webp)
  then show False by (simp add: IMG_EXTS_def)
qed

lemma replaced_differs:
  assumes sh: "shape q1 b e q2"
  shows "q1 # b @ ''.webp'' @ q2 # t \<noteq> q1 # b @ e @ q2 # r"
proof
  assume "q1 # b @ ''.webp'' @ q2 # t = q1 # b @ e @ q2 # r"
  then have eq: "''.webp'' @ q2 # t = e @ q2 # r" by simp
  from sh have e: "map lower_chr e \<in> IMG_EXTS" and q2: "is_quote q2" by (auto simp: shape_def)
  from e have 1: "\<forall>x\<in>set e. \<not> is_quote x" using ext_no_quote by blast
  have 2: "\<forall>x\<in>set ''.webp''. \<not> is_quote x" using webp_no_quote by blast
  from first_quote_unique [OF 2 1 q2 q2 eq] have "e = ''.webp''" by simp
  with e show False using ext_not_webp by blast
qed

lemma has_quoted_ext_Cons: "has_quoted_ext cs \<Longrightarrow> has_quoted_ext (c # cs)"
  unfolding has_quoted_ext_def
proof -
  assume "\<exists>pre q1 b e q2 r. cs = pre @ q1 # b @ e @ q2 # r \<and> shape q1 b e q2"
  then obtain pre q1 b e q2 r where "cs = pre @ q1 # b @ e @ q2 # r" "shape q1 b e q2" by blast
  then have "c # cs = (c # pre) @ q1 # b @ e @ q2 # r \<and> shape q1 b e q2" by simp
  then show "\<exists>pre q1 b e q2 r. c # cs = pre @ q1 # b @ e @ q2 # r \<and> shape q1 b e q2" by blast
qed

lemma has_quoted_ext_match:
  assumes "set es = IMG_EXTS" and "match_at es s = Some (q1, b, e, q2, r)"
  shows "has_quoted_ext s"
proof -
  from assms have "s = [] @ q1 # b @ e @ q2 # r \<and> shape q1 b e q2"
    by (simp add: match_at_shape)
  then show ?thesis unfolding has_quoted_ext_def by blast
qed

lemma has_quoted_ext_tail:
  assumes es: "set es = IMG_EXTS" and h: "has_quoted_ext (c # cs)"
    and n: "match_at es (c # cs) = None"
  shows "has_quoted_ext cs"
proof -
  from h obtain pre q1 b e q2 r where eq: "c # cs = pre @ q1 # b @ e @ q2 # r"
    and sh: "shape q1 b e q2" unfolding has_quoted_ext_def by blast
  show ?thesis
  proof (cases pre)
    case Nil
    with eq sh es have "match_at es (c # cs) = Some (q1, b, e, q2, r)"
      by (simp add: match_at_shape)
    with n show ?thesis by simp
  next
    case (Cons x pre')
    with eq have "cs = pre' @ q1 # b @ e @ q2 # r" by simp
    with sh show ?thesis unfolding has_quoted_ext_def by blast
  qed
qed

lemma sub_text_fixed_iff:
  assumes es: "set es = IMG_EXTS"
  shows "sub_text es t = t \<longleftrightarrow> \<not> has_quoted_ext t"
proof (induction t)
  case Nil
  have "\<not> has_quoted_ext []" unfolding has_quoted_ext_def by simp
  then show ?case by (simp add: sub_text_Nil)
next
  case (Cons c cs)
  show ?case
  proof (cases "match_at es (c # cs)")
    case None
    then have "sub_text es (c # cs) = c # cs \<longleftrightarrow> sub_text es cs = cs"
      by (simp add: sub_text_None)
    also have "\<dots> \<longleftrightarrow> \<not> has_quoted_ext cs" by (rule Cons.IH)
    also have "\<dots> \<longleftrightarrow> \<not> has_quoted_ext (c # cs)"
      using has_quoted_ext_Cons has_quoted_ext_tail [OF es _ None] by blast
    finally show ?thesis .
  next
    case (Some a)
    obtain q1 b e q2 r where a: "a = (q1, b, e, q2, r)" by (cases a)
    from Some a have m: "match_at es (c # cs) = Some (q1, b, e, q2, r)" by simp
    with es have eq: "c # cs = q1 # b @ e @ q2 # r" and sh: "shape q1 b e q2"
      by (simp_all add: match_at_shape)
    from sub_text_Some [OF m] replaced_differs [OF sh] eq
    have "sub_text es (c # cs) \<noteq> c # cs" by simp
    moreover from has_quoted_ext_match [OF es m] have "has_quoted_ext (c # cs)" .
    ultimately show ?thesis by simp
  qed
qed

lemma sub_text_idem_iff:
  assumes es: "set es = IMG_EXTS"
  shows "sub_text es (sub_text es s) = sub_text es s \<longleftrightarrow> abut_free es s"
proof (induction "length s" arbitrary: s rule: less_induct)
  case less
  show ?case
  proof (cases "match_at es s")
    case None
    show ?thesis
    proof (cases s)
      case Nil
      then show ?thesis by (simp add: sub_text_Nil abut_free.simps match_at_def)
    next
      case (Cons c cs)
      with None have n: "match_at es (c # cs) = None" by simp
      from match_at_sub_None [OF es n]
      have "sub_text es (c # sub_text es cs) = c # sub_text es (sub_text es cs)"
        by (rule sub_text_None)
      with n have "sub_text es (sub_text es (c # cs)) = sub_text es (c # cs) \<longleftrightarrow>
          sub_text es (sub_text es cs) = sub_text es cs"
        by (simp add: sub_text_None)
      also have "\<dots> \<longleftrightarrow> abut_free es cs" using less Cons by simp
      also have "\<dots> \<longleftrightarrow> abut_free es (c # cs)"
        using n by (subst (2) abut_free.simps) simp
      finally show ?thesis using Cons by simp
    qed
  next
    case (Some a)
    obtain q1 b e q2 r where a: "a = (q1, b, e, q2, r)" by (cases a)
    from Some a have m: "match_at es s = Some (q1, b, e, q2, r)" by simp
    with es have eq: "s = q1 # b @ e @ q2 # r" and sh: "shape q1 b e q2"
      by (simp_all add: match_at_shape)
    from sh have q2: "is_quote q2" and b: "\<forall>x\<in>set b. \<not> is_quote x"
      by (auto simp: shape_def list_ex_iff)
    from b have bw: "\<forall>x\<in>set (b @ ''.webp''). \<not> is_quote x" using webp_no_quote by auto
    have len: "length r < length s" using m by (rule match_at_len)
    have s1: "sub_text es s = q1 # b @ ''.webp'' @ q2 # sub_text es r"
      using m by (rule sub_text_Some)
    have "sub_text es (q1 # b @ ''.webp'' @ q2 # sub_text es r) =
        q1 # sub_text es (b @ ''.webp'' @ q2 # sub_text es r)"
      using webp_no_match [OF es b q2] by (rule sub_text_None)
    also have "\<dots> = q1 # (b @ ''.webp'') @ sub_text es (q2 # sub_text es r)"
      using sub_text_skip [OF bw, of es "q2 # sub_text es r"] by simp
    finally have s2: "sub_text es (sub_text es s) =
        q1 # b @ ''.webp'' @ sub_text es (q2 # sub_text es r)"
      using s1 by simp
    have ab: "abut_free es s \<longleftrightarrow> match_at es (q2 # r) = None \<and> abut_free es r"
      using m by (subst abut_free.simps) simp
    show ?thesis
    proof (cases "match_at es (q2 # r)")
      case None
      from match_at_sub_None [OF es None]
      have "sub_text es (q2 # sub_text es r) = q2 # sub_text es (sub_text es r)"
        by (rule sub_text_None)
      with s1 s2 have "sub_text es (sub_text es s) = sub_text es s \<longleftrightarrow>
          sub_text es (sub_text es r) = sub_text es r" by simp
      also have "\<dots> \<longleftrightarrow> abut_free es r" using less len by simp
      finally show ?thesis using ab None by simp
    next
      case (Some a')
      obtain q1' b' e' q3 r3 where "a' = (q1', b', e', q3, r3)" by (cases a')
      with Some have m': "match_at es (q2 # r) = Some (q1', b', e', q3, r3)" by simp
      from m' es have sh': "shape q1' b' e' q3" by (simp add: match_at_shape)
      from match_at_hd [OF m'] have q1': "q1' = q2" by simp
      from match_at_sub_Some [OF es m'] obtain t
        where t: "sub_text es r = b' @ e' @ q3 # t"
          and mt: "match_at es (q2 # sub_text es r) = Some (q1', b', e', q3, t)" by blast
      from sub_text_Some [OF mt] q1'
      have "sub_text es (q2 # sub_text es r) = q2 # b' @ ''.webp'' @ q3 # sub_text es t" by simp
      moreover from replaced_differs [OF sh'] q1'
      have "q2 # b' @ ''.webp'' @ q3 # sub_text es t \<noteq> q2 # b' @ e' @ q3 # t" by simp
      ultimately have "sub_text es (q2 # sub_text es r) \<noteq> q2 # sub_text es r"
        using t by simp
      with s1 s2 have "sub_text es (sub_text es s) \<noteq> sub_text es s" by simp
      with ab Some show ?thesis by simp
    qed
  qed
qed

subsection \<open>The file system and the run\<close>

lemma clean_append: "clean (xs @ ys) \<longleftrightarrow> clean xs \<and> clean ys"
  by (auto simp: clean_def)

lemma mkdirs_result:
  "mkdirs ds t = Inr t' \<Longrightarrow>
     (\<forall>d\<in>set ds. map_of t' d = Some Dir) \<and>
     (\<forall>p n. map_of t p = Some n \<longrightarrow> map_of t' p = Some n) \<and>
     (\<forall>p. map_of t p = None \<and> p \<notin> set ds \<longrightarrow> map_of t' p = None)"
proof (induction ds arbitrary: t)
  case Nil
  then show ?case by simp
next
  case (Cons d ds)
  show ?case
  proof (cases "map_of t d")
    case None
    with Cons.prems have "mkdirs ds (AList.update d Dir t) = Inr t'" by simp
    from Cons.IH [OF this]
    have a: "\<forall>x\<in>set ds. map_of t' x = Some Dir"
      and b: "\<And>p n. map_of (AList.update d Dir t) p = Some n \<Longrightarrow> map_of t' p = Some n"
      and c: "\<And>p. map_of (AList.update d Dir t) p = None \<Longrightarrow> p \<notin> set ds \<Longrightarrow> map_of t' p = None"
      by blast+
    have u: "\<And>p. map_of (AList.update d Dir t) p = (if p = d then Some Dir else map_of t p)"
      by (simp add: AList.update_conv')
    have "map_of t' d = Some Dir" using b [of d Dir] u by simp
    moreover have "\<And>p n. map_of t p = Some n \<Longrightarrow> map_of t' p = Some n"
    proof -
      fix p n assume pn: "map_of t p = Some n"
      with None have "p \<noteq> d" by auto
      with pn u show "map_of t' p = Some n" using b by simp
    qed
    moreover have "\<And>p. map_of t p = None \<Longrightarrow> p \<notin> set (d # ds) \<Longrightarrow> map_of t' p = None"
    proof -
      fix p assume "map_of t p = None" and "p \<notin> set (d # ds)"
      then have "map_of (AList.update d Dir t) p = None" and "p \<notin> set ds" using u by simp_all
      then show "map_of t' p = None" by (rule c)
    qed
    ultimately show ?thesis using a by simp
  next
    case (Some n)
    with Cons.prems have n: "n = Dir" and "mkdirs ds t = Inr t'"
      by (cases n; simp)+
    from Cons.IH [OF this(2)] Some n show ?thesis by auto
  qed
qed

lemma mkdirs_present: "\<forall>d\<in>set ds. map_of t d = Some Dir \<Longrightarrow> mkdirs ds t = Inr t"
  by (induction ds) auto

lemma mkdirs_failure:
  "mkdirs ds t = Inl e \<Longrightarrow> e = FileExistsError \<or> e = NotADirectoryError"
  by (induction ds arbitrary: t) (auto split: option.splits node.splits if_splits)

lemma dst_not_prefix: "backup_dst src \<notin> set (prefixes_of (butlast (backup_dst src)))"
  by (auto simp: prefixes_of_def backup_dst_def dest!: arg_cong [where f = length])

lemma backup_preserves:
  assumes "map_of t p = Some n"
  shows "map_of (fst (backup src t)) p = Some n"
proof (cases "mkdir_parents (butlast (backup_dst src)) t")
  case (Inl e)
  with assms show ?thesis by (simp add: backup_def)
next
  case (Inr t1)
  then have 1: "map_of t1 p = Some n"
    using mkdirs_result assms unfolding mkdir_parents_def by blast
  show ?thesis
  proof (cases "map_of t1 (backup_dst src) = None")
    case False
    with Inr 1 show ?thesis by (simp add: backup_def)
  next
    case True
    with 1 have "p \<noteq> backup_dst src" by auto
    with Inr 1 True show ?thesis
      by (auto simp: backup_def AList.update_conv' split: option.splits node.splits)
  qed
qed

lemma backup_idem:
  assumes "backup src t = (t', None)"
  shows "backup src t' = (t', None)"
proof (cases "mkdir_parents (butlast (backup_dst src)) t")
  case (Inl e)
  with assms show ?thesis by (simp add: backup_def)
next
  case (Inr t1)
  then have m: "mkdirs (prefixes_of (butlast (backup_dst src))) t = Inr t1"
    by (simp add: mkdir_parents_def)
  from mkdirs_result [OF m]
  have dirs: "\<forall>d\<in>set (prefixes_of (butlast (backup_dst src))). map_of t1 d = Some Dir" by blast
  show ?thesis
  proof (cases "map_of t1 (backup_dst src) = None")
    case False
    with Inr assms have "t' = t1" by (simp add: backup_def)
    with dirs False show ?thesis
      by (simp add: backup_def mkdir_parents_def mkdirs_present)
  next
    case True
    with Inr assms obtain c m where t': "t' = AList.update (backup_dst src) (File c m) t1"
      by (auto simp: backup_def split: option.splits node.splits)
    with dirs dst_not_prefix
    have "\<forall>d\<in>set (prefixes_of (butlast (backup_dst src))). map_of t' d = Some Dir"
      by (auto simp: AList.update_conv')
    then have "mkdir_parents (butlast (backup_dst src)) t' = Inr t'"
      by (simp add: mkdir_parents_def mkdirs_present)
    moreover from t' have "map_of t' (backup_dst src) \<noteq> None"
      by (simp add: AList.update_conv')
    ultimately show ?thesis by (simp add: backup_def)
  qed
qed

lemma backup_existing:
  assumes "map_of t (backup_dst src) = Some n"
    and "\<forall>d\<in>set (prefixes_of (butlast (backup_dst src))). map_of t d = Some Dir"
  shows "backup src t = (t, None)"
  using assms by (simp add: backup_def mkdir_parents_def mkdirs_present)

lemma backup_fresh:
  assumes "map_of t (backup_dst src) = None" and "map_of t src = Some (File c m)"
    and "mkdir_parents (butlast (backup_dst src)) t = Inr t1"
  shows "backup src t = (AList.update (backup_dst src) (File c m) t1, None)"
proof -
  from assms(3) have m: "mkdirs (prefixes_of (butlast (backup_dst src))) t = Inr t1"
    by (simp add: mkdir_parents_def)
  from mkdirs_result [OF m] assms(1,2) dst_not_prefix
  have "map_of t1 (backup_dst src) = None" and "map_of t1 src = Some (File c m)" by blast+
  with assms(3) show ?thesis by (simp add: backup_def)
qed



lemma process_image_clean:
  assumes "\<not> should_skip src" and "clean (trace st)"
  shows "clean (trace (final (process_image codec src st)))"
  using assms
  by (auto simp: process_image_def emit_def clean_append clean_def
      split: sum.splits prod.splits option.splits if_splits)

lemma process_all_clean:
  "\<forall>src\<in>set imgs. \<not> should_skip src \<Longrightarrow> clean (trace st) \<Longrightarrow>
     clean (trace (final (process_all codec imgs st)))"
proof (induction imgs arbitrary: st)
  case Nil
  then show ?case by simp
next
  case (Cons src imgs)
  then have c: "clean (trace (final (process_image codec src st)))"
    using process_image_clean by simp
  show ?case
  proof (cases "process_image codec src st")
    case (Finished st')
    with c Cons show ?thesis by simp
  next
    case (Aborted e st')
    with c show ?thesis by simp
  qed
qed

lemma patch_html_files_clean:
  "\<forall>p\<in>set ps. \<not> should_skip p \<Longrightarrow> clean (trace st) \<Longrightarrow>
     clean (trace (final (patch_html_files es ps rn st)))"
proof (induction ps arbitrary: st)
  case Nil
  then show ?case by simp
next
  case (Cons p ps)
  from Cons.prems have p: "\<not> should_skip p" and ps: "\<forall>p\<in>set ps. \<not> should_skip p" by auto
  show ?case
  proof (cases "read_text (fs st) p")
    case (Inl e)
    with Cons.prems(2) p show ?thesis by (simp add: emit_def clean_append clean_def)
  next
    case (Inr tx)
    have 1: "clean (trace (emit [EvReadText p] st))"
      using Cons.prems(2) p by (simp add: emit_def clean_append clean_def)
    have 2: "clean (trace (emit [EvReadText p, EvWriteText p, EvPrint (HtmlUpdated p)]
                (st\<lparr>fs := AList.update p (File (sub_text es tx) (clock st)) (fs st),
                    clock := Suc (clock st)\<rparr>)))"
      using Cons.prems(2) p by (simp add: emit_def clean_append clean_def)
    from Inr Cons.IH [OF ps 1] Cons.IH [OF ps 2] show ?thesis
      by (simp add: Let_def)
  qed
qed

lemma find_images_not_skipped: "p \<in> set (find_images t) \<Longrightarrow> \<not> should_skip p"
  by (simp add: find_images_def)

lemma find_html_files_not_skipped: "p \<in> set (find_html_files t) \<Longrightarrow> \<not> should_skip p"
  by (simp add: find_html_files_def)

lemma main_clean: "clean (trace (final (main es codec t now)))"
proof (cases "find_images t = []")
  case True
  then show ?thesis by (simp add: main_def emit_def init_state_def clean_def)
next
  case False
  let ?st0 = "emit [EvPrint (FoundImages (length (find_images t)))] (init_state t now)"
  have c0: "clean (trace ?st0)" by (simp add: emit_def init_state_def clean_def)
  have c1: "clean (trace (final (process_all codec (find_images t) ?st0)))"
    using process_all_clean [OF _ c0] find_images_not_skipped by blast
  show ?thesis
  proof (cases "process_all codec (find_images t) ?st0")
    case (Aborted e st)
    with c1 False show ?thesis by (simp add: main_def)
  next
    case (Finished st1)
    with c1 have c1': "clean (trace st1)" by simp
    then have c2: "clean (trace (emit [EvPrint UpdatingLinks] st1))"
      by (simp add: emit_def clean_append clean_def)
    have c3: "clean (trace (final (patch_html_files es (find_html_files (fs st1)) (renamed st1)
                (emit [EvPrint UpdatingLinks] st1))))"
      using patch_html_files_clean [OF _ c2] find_html_files_not_skipped by blast
    show ?thesis
    proof (cases "find_html_files (fs st1) \<noteq> [] \<and> renamed st1 \<noteq> []")
      case True
      show ?thesis
      proof (cases "patch_html_files es (find_html_files (fs st1)) (renamed st1)
                (emit [EvPrint UpdatingLinks] st1)")
        case (Finished st2)
        with c3 have "clean (trace st2)" by simp
        then have "clean (trace (emit [EvPrint (Summary (total_before st2) (total_after st2))] st2))"
          by (simp add: emit_def clean_append clean_def)
        with Finished \<open>process_all codec (find_images t) ?st0 = Finished st1\<close> True False
        show ?thesis by (simp add: main_def Let_def)
      next
        case (Aborted e st2)
        with c3 \<open>process_all codec (find_images t) ?st0 = Finished st1\<close> True False
        show ?thesis by (simp add: main_def Let_def)
      qed
    next
      case nohtml: False
      from c1' have "clean (trace (emit [EvPrint (Summary (total_before st1) (total_after st1))] st1))"
        by (simp add: emit_def clean_append clean_def)
      with Finished nohtml False show ?thesis by (auto simp: main_def Let_def)
    qed
  qed
qed

lemma patch_html_files_untouched:
  assumes es: "set es = IMG_EXTS" and nq: "\<not> has_quoted_ext text"
  shows "map_of (fs st) p = Some (File text m) \<Longrightarrow> EvWriteText p \<notin> set (trace st) \<Longrightarrow>
         map_of (fs (final (patch_html_files es ps rn st))) p = Some (File text m) \<and>
         EvWriteText p \<notin> set (trace (final (patch_html_files es ps rn st)))"
proof (induction ps arbitrary: st)
  case Nil
  then show ?case by simp
next
  case (Cons q ps)
  show ?case
  proof (cases "read_text (fs st) q")
    case (Inl e)
    with Cons.prems show ?thesis by (simp add: emit_def)
  next
    case (Inr tx)
    show ?thesis
    proof (cases "sub_text es tx = tx")
      case True
      have "map_of (fs (emit [EvReadText q] st)) p = Some (File text m)"
        and "EvWriteText p \<notin> set (trace (emit [EvReadText q] st))"
        using Cons.prems by (simp_all add: emit_def)
      from Cons.IH [OF this] Inr True show ?thesis by simp
    next
      case False
      have "q \<noteq> p"
      proof
        assume "q = p"
        with Inr Cons.prems(1) have "tx = text" by (simp add: read_text_def)
        with False nq es show False by (simp add: sub_text_fixed_iff)
      qed
      let ?st' = "emit [EvReadText q, EvWriteText q, EvPrint (HtmlUpdated q)]
                   (st\<lparr>fs := AList.update q (File (sub_text es tx) (clock st)) (fs st),
                       clock := Suc (clock st)\<rparr>)"
      from \<open>q \<noteq> p\<close> Cons.prems have "map_of (fs ?st') p = Some (File text m)"
        and "EvWriteText p \<notin> set (trace ?st')"
        by (simp_all add: emit_def AList.update_conv')
      from Cons.IH [OF this] Inr False show ?thesis by (simp add: Let_def)
    qed
  qed
qed

lemma patch_html_files_renamed:
  "patch_html_files es ps r1 st = patch_html_files es ps r2 st"
  by (induction ps arbitrary: st) (auto simp: Let_def split: sum.splits)


text \<open>
  With nothing at the backup path beforehand, the tree in which \<^verbatim>\<open>main\<close> deletes
  an image (the one \<^verbatim>\<open>convert_to_webp\<close> leaves) holds the image's content and time
  at the backup path.
\<close>

lemma convert_to_webp_result:
  assumes "convert_to_webp codec src now t = Inr (dst, t2)"
  shows "length dst = length src \<and> (\<exists>w. t2 = AList.update dst (File w now) t)"
proof -
  from assms obtain d where d: "with_suffix src ''.webp'' = Inr d"
    by (auto simp: convert_to_webp_def split: sum.splits)
  then have "src \<noteq> []" and "d = butlast src @ [take (length (name_of src) - length (suffix_of src)) (name_of src) @ ''.webp'']"
    by (auto simp: with_suffix_def name_of_def Let_def split: if_splits)
  then have "length d = length src" by simp
  with assms d show ?thesis
    by (auto simp: convert_to_webp_def split: option.splits node.splits if_splits)
qed

lemma fresh_backup_precedes_delete:
  assumes free: "map_of (fs st) (backup_dst src) = None"
    and src: "map_of (fs st) src = Some (File c m)"
    and b: "backup src (fs st) = (t1, None)"
    and cv: "convert_to_webp codec src (clock st) t1 = Inr (dst, t2)"
  shows "map_of t2 (backup_dst src) = Some (File c m)"
proof -
  from b obtain t0 where m: "mkdir_parents (butlast (backup_dst src)) (fs st) = Inr t0"
    by (cases "mkdir_parents (butlast (backup_dst src)) (fs st)") (auto simp: backup_def)
  from backup_fresh [OF free src m] b
  have "t1 = AList.update (backup_dst src) (File c m) t0" by simp
  then have 1: "map_of t1 (backup_dst src) = Some (File c m)" by (simp add: AList.update_conv')
  from convert_to_webp_result [OF cv] obtain w
    where l: "length dst = length src" and t2: "t2 = AList.update dst (File w (clock st)) t1"
    by blast
  from l have "dst \<noteq> backup_dst src" by (auto simp: backup_dst_def)
  with 1 t2 show ?thesis by (simp add: AList.update_conv')
qed











section \<open>The claims\<close>

subsection \<open>Backup before delete\<close>

text \<open>
  Claim C1. For every image processed successfully, a byte-identical copy of the
  original exists at the mirrored backup path when the original is deleted.

  The script's own comments say so (the original is deleted because "it is already in
  the backup"), but \<^verbatim>\<open>backup\<close> skips the copy whenever anything exists at the
  backup path. In \<open>stale_tree\<close> the image \<^verbatim>\<open>a.jpg\<close> holds \<^verbatim>\<open>NEW\<close> while
  \<^verbatim>\<open>backup_images/a.jpg\<close>, left by an earlier run, holds \<^verbatim>\<open>OLD\<close>: the run
  finishes, deletes the image, and the backup path still holds \<^verbatim>\<open>OLD\<close>. (With a
  free backup path the copy is there when the image is deleted:
  \<open>fresh_backup_precedes_delete\<close>.)
\<close>

theorem stale_backup_original_deleted:
  "raised (main exts0 codec_ok stale_tree 10) = None \<and>
   map_of stale_tree [''a.jpg''] = Some (File ''NEW'' 5) \<and>
   EvUnlink [''a.jpg''] \<in> set (trace (final (main exts0 codec_ok stale_tree 10))) \<and>
   map_of (fs (final (main exts0 codec_ok stale_tree 10))) [''a.jpg''] = None \<and>
   map_of (fs (final (main exts0 codec_ok stale_tree 10))) (backup_dst [''a.jpg'']) =
     Some (File ''OLD'' 1)"
  by code_simp

subsection \<open>Skipped directories\<close>

text \<open>
  Claim C2. A path with a component that is a member of \<^verbatim>\<open>SKIP_DIRS\<close> is yielded
  by neither locator, whatever its extension; hence no run reads, transcodes, deletes
  or rewrites such a path.
\<close>

theorem excluded_paths_never_touched:
  assumes "part \<in> set p" and "part \<in> SKIP_DIRS"
  shows "p \<notin> set (find_images t) \<and> p \<notin> set (find_html_files t) \<and>
         (\<forall>ev\<in>set (trace (final (script pil es codec t now))). p \<notin> set (touched ev))"
proof -
  from assms have sk: "should_skip p" by (auto simp: should_skip_def list_ex_iff)
  then have "p \<notin> set (find_images t)" and "p \<notin> set (find_html_files t)"
    using find_images_not_skipped find_html_files_not_skipped by blast+
  moreover have "clean (trace (final (script pil es codec t now)))"
    by (simp add: script_def main_clean) (simp add: emit_def init_state_def clean_def)
  with sk have "\<forall>ev\<in>set (trace (final (script pil es codec t now))). p \<notin> set (touched ev)"
    unfolding clean_def by blast
  ultimately show ?thesis by simp
qed

theorem excluded_paths_never_touched_witness:
  "''.git'' \<in> set [''.git'', ''x.png''] \<and> ''.git'' \<in> SKIP_DIRS \<and>
   [''.git'', ''x.png''] \<notin> set (find_images skipped_tree) \<and>
   [''.git'', ''x.png''] \<notin> set (find_html_files skipped_tree) \<and>
   list_all (\<lambda>ev. [''.git'', ''x.png''] \<notin> set (touched ev))
     (trace (final (script True exts0 codec_ok skipped_tree 0)))"
proof -
  have h1: "''.git'' \<in> set [''.git'', ''x.png'']" by simp
  have h2: "''.git'' \<in> SKIP_DIRS" by (simp add: SKIP_DIRS_def)
  from excluded_paths_never_touched [OF h1 h2, of skipped_tree True exts0 codec_ok 0] h1 h2
  show ?thesis unfolding list_all_iff by blast
qed

subsection \<open>A failing conversion\<close>



subsection \<open>What the rewriter replaces\<close>

text \<open>
  Claim C4. The rewriter replaces exactly the substrings of the shape: a quote, a
  non-quote body, an old extension in any case, a matching quote; only the extension
  changes, to \<^verbatim>\<open>.webp\<close>.

  The closing quote of the pattern is \<^verbatim>\<open>["']\<close>, not a reference to the opening
  one, and \<^verbatim>\<open>sub\<close> replaces non-overlapping matches from the left. So a path
  between a double and a single quote is rewritten, and an occurrence of the shape
  whose opening quote closed the match before it is not.
\<close>

theorem rewrite_mismatched_and_overlapping:
  "dq \<noteq> sq \<and>
   sub_text exts0 (dq # ''a.jpg'' @ [sq]) = dq # ''a.webp'' @ [sq] \<and>
   sub_text exts0 (dq # ''a.jpg'' @ dq # ''b.png'' @ [dq]) = dq # ''a.webp'' @ dq # ''b.png'' @ [dq]"
  by code_simp

text \<open>
  Claim C4, as amended: scanning from the left, where the remaining text starts with an opening
  quote, a non-empty body without quotes, an old extension in any case and a closing
  quote of either kind, these are replaced by the same opening quote, body and closing
  quote around \<^verbatim>\<open>.webp\<close>, and the scan goes on after the closing quote; where it
  does not, one character is copied and the scan goes on after it.
\<close>

theorem rewrite_replaces_shape:
  assumes "set es = IMG_EXTS"
  shows "(shape q1 b e q2 \<longrightarrow>
            sub_text es (q1 # b @ e @ q2 # r) = q1 # b @ ''.webp'' @ q2 # sub_text es r) \<and>
         ((\<forall>q1 b e q2 r. c # cs = q1 # b @ e @ q2 # r \<longrightarrow> \<not> shape q1 b e q2) \<longrightarrow>
            sub_text es (c # cs) = c # sub_text es cs) \<and>
         sub_text es [] = []"
proof (intro conjI impI)
  assume "shape q1 b e q2"
  with assms have "match_at es (q1 # b @ e @ q2 # r) = Some (q1, b, e, q2, r)"
    by (simp add: match_at_shape)
  then show "sub_text es (q1 # b @ e @ q2 # r) = q1 # b @ ''.webp'' @ q2 # sub_text es r"
    by (rule sub_text_Some)
next
  assume no: "\<forall>q1 b e q2 r. c # cs = q1 # b @ e @ q2 # r \<longrightarrow> \<not> shape q1 b e q2"
  have "match_at es (c # cs) = None"
  proof (cases "match_at es (c # cs)")
    case None
    then show ?thesis .
  next
    case (Some a)
    obtain q1 b e q2 r where "a = (q1, b, e, q2, r)" by (cases a)
    with Some assms have "c # cs = q1 # b @ e @ q2 # r \<and> shape q1 b e q2"
      by (simp add: match_at_shape)
    with no show ?thesis by blast
  qed
  then show "sub_text es (c # cs) = c # sub_text es cs" by (rule sub_text_None)
next
  show "sub_text es [] = []" by (rule sub_text_Nil)
qed

theorem rewrite_replaces_shape_witness:
  "set exts0 = IMG_EXTS \<and> shape dq ''pics/a'' ''.JPG'' dq \<and>
   sub_text exts0 (dq # ''pics/a'' @ ''.JPG'' @ dq # ''>'') =
     dq # ''pics/a'' @ ''.webp'' @ dq # sub_text exts0 ''>'' \<and>
   sub_text exts0 (CHR ''<'' # ''img'') = CHR ''<'' # sub_text exts0 ''img'' \<and>
   sub_text exts0 [] = []"
proof -
  have h1: "set exts0 = IMG_EXTS" by (auto simp: exts0_def IMG_EXTS_def)
  have h2: "shape dq ''pics/a'' ''.JPG'' dq"
    by (simp add: shape_def is_quote_def dq_def sq_def lower_chr_def IMG_EXTS_def)
  have h3: "\<forall>q1 b e q2 r. CHR ''<'' # ''img'' = q1 # b @ e @ q2 # r \<longrightarrow> \<not> shape q1 b e q2"
    by (auto simp: shape_def is_quote_def dq_def sq_def)
  from rewrite_replaces_shape [OF h1, of dq "''pics/a''" "''.JPG''" dq "''>''" "CHR ''<''" "''img''"]
    h1 h2 h3
  show ?thesis by blast
qed

subsection \<open>The rename map\<close>

text \<open>
  Claim C5. The output of the rewriter does not depend on the rename map: with any two
  maps it reads, rewrites and writes the same files in the same way.
\<close>

theorem rewrite_ignores_rename_map:
  "patch_html_files es html_files renamed1 st = patch_html_files es html_files renamed2 st"
  by (rule patch_html_files_renamed)

subsection \<open>Which errors end the run\<close>




subsection \<open>The backup step\<close>

text \<open>
  Claim C7. The backup step is idempotent: when the destination exists it does nothing,
  so a second call on the same source leaves the bytes and the time of the first copy as
  they are; otherwise it copies the source with its modification time.

  Four parts: a second call after a successful one changes nothing; an entry at the
  destination survives any call unchanged; with the destination and its directories in
  place the call is the identity; with a free destination and a source file the call
  writes the source's content and time there.
\<close>

theorem backup_idempotent:
  "(backup src t = (t', None) \<longrightarrow> backup src t' = (t', None)) \<and>
   (map_of t (backup_dst src) = Some n \<longrightarrow>
      map_of (fst (backup src t)) (backup_dst src) = Some n) \<and>
   (map_of t (backup_dst src) = Some n \<longrightarrow>
      (\<forall>d\<in>set (prefixes_of (butlast (backup_dst src))). map_of t d = Some Dir) \<longrightarrow>
      backup src t = (t, None)) \<and>
   (map_of t (backup_dst src) = None \<longrightarrow> map_of t src = Some (File c m) \<longrightarrow>
      mkdir_parents (butlast (backup_dst src)) t = Inr t1 \<longrightarrow>
      backup src t = (AList.update (backup_dst src) (File c m) t1, None) \<and>
      map_of (fst (backup src t)) (backup_dst src) = Some (File c m))"
proof (intro conjI impI)
  assume "backup src t = (t', None)"
  then show "backup src t' = (t', None)" by (rule backup_idem)
next
  assume "map_of t (backup_dst src) = Some n"
  then show "map_of (fst (backup src t)) (backup_dst src) = Some n" by (rule backup_preserves)
next
  assume "map_of t (backup_dst src) = Some n"
    "\<forall>d\<in>set (prefixes_of (butlast (backup_dst src))). map_of t d = Some Dir"
  then show "backup src t = (t, None)" by (rule backup_existing)
next
  assume a: "map_of t (backup_dst src) = None" "map_of t src = Some (File c m)"
    "mkdir_parents (butlast (backup_dst src)) t = Inr t1"
  then show b: "backup src t = (AList.update (backup_dst src) (File c m) t1, None)"
    by (rule backup_fresh)
  show "map_of (fst (backup src t)) (backup_dst src) = Some (File c m)"
    by (simp add: b AList.update_conv')
qed

theorem backup_idempotent_witness:
  "backup [''a.jpg''] fresh_tree = (backed_tree, None) \<and>
   backup [''a.jpg''] backed_tree = (backed_tree, None) \<and>
   map_of (fst (backup [''a.jpg''] edited_tree)) (backup_dst [''a.jpg'']) = Some (File ''x'' 7) \<and>
   backup [''a.jpg''] edited_tree = (edited_tree, None) \<and>
   map_of (fst (backup [''a.jpg''] fresh_tree)) (backup_dst [''a.jpg'']) = Some (File ''x'' 7)"
proof -
  have e: "AList.update (backup_dst [''a.jpg'']) (File ''x'' 7)
             (fresh_tree @ [([''backup_images''], Dir)]) = backed_tree" by code_simp
  have f1: "map_of fresh_tree (backup_dst [''a.jpg'']) = None" by code_simp
  have f2: "map_of fresh_tree [''a.jpg''] = Some (File ''x'' 7)" by code_simp
  have f3: "mkdir_parents (butlast (backup_dst [''a.jpg''])) fresh_tree =
              Inr (fresh_tree @ [([''backup_images''], Dir)])" by code_simp
  have g1: "map_of edited_tree (backup_dst [''a.jpg'']) = Some (File ''x'' 7)" by code_simp
  have g2: "\<forall>d\<in>set (prefixes_of (butlast (backup_dst [''a.jpg'']))). map_of edited_tree d = Some Dir"
    by (simp add: prefixes_of_def backup_dst_def BACKUP_DIR_def edited_tree_def)
  note a = backup_idempotent [of "[''a.jpg'']" fresh_tree backed_tree "File ''x'' 7" "''x''" 7
      "fresh_tree @ [([''backup_images''], Dir)]"]
  note b = backup_idempotent [of "[''a.jpg'']" edited_tree edited_tree "File ''x'' 7" "''x''" 7
      "[]"]
  from a f1 f2 f3 have 0: "backup [''a.jpg''] fresh_tree =
      (AList.update (backup_dst [''a.jpg'']) (File ''x'' 7) (fresh_tree @ [([''backup_images''], Dir)]), None)"
    and 5: "map_of (fst (backup [''a.jpg''] fresh_tree)) (backup_dst [''a.jpg'']) = Some (File ''x'' 7)"
    by blast+
  from 0 e have 1: "backup [''a.jpg''] fresh_tree = (backed_tree, None)" by simp
  from a 1 have 2: "backup [''a.jpg''] backed_tree = (backed_tree, None)" by blast
  from b g1 have 3: "map_of (fst (backup [''a.jpg''] edited_tree)) (backup_dst [''a.jpg'']) =
      Some (File ''x'' 7)" by blast
  from b g1 g2 have 4: "backup [''a.jpg''] edited_tree = (edited_tree, None)" by blast
  from 1 2 3 4 5 show ?thesis by blast
qed

subsection \<open>No spurious write\<close>

text \<open>
  Claim C8. If a markup file contains no quoted substring ending in an old image
  extension, rewriting yields the same text and the file is not written back, so its
  modification time stays.

  The pattern does not ask the closing quote to be the opening one. A file whose whole
  text is \<^verbatim>\<open>a.jpg\<close> between a double quote and a single quote holds no quote twice,
  so nothing in it stands between two quotes of the same kind; yet the text is
  rewritten and the file is written back with a new time.
\<close>

theorem mismatched_quotes_written_back:
  "\<not> matching_quoted_ext (dq # ''a.jpg'' @ [sq]) \<and>
   map_of quote_tree [''q.html''] = Some (File (dq # ''a.jpg'' @ [sq]) 3) \<and>
   sub_text exts0 (dq # ''a.jpg'' @ [sq]) = dq # ''a.webp'' @ [sq] \<and>
   map_of (fs (final (patch_html_files exts0 [[''q.html'']] [] (init_state quote_tree 10))))
     [''q.html''] = Some (File (dq # ''a.webp'' @ [sq]) 10) \<and>
   EvWriteText [''q.html''] \<in>
     set (trace (final (patch_html_files exts0 [[''q.html'']] [] (init_state quote_tree 10))))"
proof -
  have 1: "\<not> matching_quoted_ext (dq # ''a.jpg'' @ [sq])"
  proof
    assume "matching_quoted_ext (dq # ''a.jpg'' @ [sq])"
    then obtain pre q b e r where eq: "dq # ''a.jpg'' @ [sq] = pre @ q # b @ e @ q # r"
      and q: "is_quote q" unfolding matching_quoted_ext_def by blast
    have "2 \<le> count_list (pre @ q # b @ e @ q # r) q" by simp
    with eq have "2 \<le> count_list (dq # ''a.jpg'' @ [sq]) q" by simp
    moreover from q have "count_list (dq # ''a.jpg'' @ [sq]) q = 1"
      by (auto simp: is_quote_def dq_def sq_def)
    ultimately show False by simp
  qed
  have 2: "map_of quote_tree [''q.html''] = Some (File (dq # ''a.jpg'' @ [sq]) 3)" by code_simp
  have 3: "sub_text exts0 (dq # ''a.jpg'' @ [sq]) = dq # ''a.webp'' @ [sq]" by code_simp
  have 4: "map_of (fs (final (patch_html_files exts0 [[''q.html'']] [] (init_state quote_tree 10))))
     [''q.html''] = Some (File (dq # ''a.webp'' @ [sq]) 10)" by code_simp
  have 5: "EvWriteText [''q.html''] \<in>
     set (trace (final (patch_html_files exts0 [[''q.html'']] [] (init_state quote_tree 10))))"
    by code_simp
  from 1 2 3 4 5 show ?thesis by blast
qed

text \<open>
  Claim C8, as amended: if a markup file contains no substring made of a quote of
  either kind, a non-empty body without quotes, an old image extension in any case and
  a quote of either kind (not necessarily the opening one), rewriting yields the same
  text and the file is not written back, so its content and its modification time
  stay; this holds whatever other files the rewriter is given.
\<close>

theorem no_match_no_write:
  assumes "set es = IMG_EXTS" and "map_of (fs st) p = Some (File text m)"
    and "\<not> has_quoted_ext text" and "EvWriteText p \<notin> set (trace st)"
  shows "sub_text es text = text \<and>
         map_of (fs (final (patch_html_files es ps rn st))) p = Some (File text m) \<and>
         EvWriteText p \<notin> set (trace (final (patch_html_files es ps rn st)))"
  using assms sub_text_fixed_iff patch_html_files_untouched by blast

theorem no_match_no_write_witness:
  "set exts0 = IMG_EXTS \<and>
   map_of (fs (init_state html_tree 10)) [''index.html''] = Some (File plain_html 3) \<and>
   \<not> has_quoted_ext plain_html \<and>
   EvWriteText [''index.html''] \<notin> set (trace (init_state html_tree 10)) \<and>
   sub_text exts0 plain_html = plain_html \<and>
   map_of (fs (final (patch_html_files exts0 [[''index.html''], [''b.html'']] []
      (init_state html_tree 10)))) [''index.html''] = Some (File plain_html 3) \<and>
   EvWriteText [''index.html''] \<notin> set (trace (final (patch_html_files exts0
      [[''index.html''], [''b.html'']] [] (init_state html_tree 10))))"
proof -
  have h1: "set exts0 = IMG_EXTS" by (auto simp: exts0_def IMG_EXTS_def)
  have h2: "map_of (fs (init_state html_tree 10)) [''index.html''] = Some (File plain_html 3)"
    by (simp add: init_state_def html_tree_def)
  have "sub_text exts0 plain_html = plain_html" by code_simp
  with h1 have h3: "\<not> has_quoted_ext plain_html" by (simp add: sub_text_fixed_iff)
  have h4: "EvWriteText [''index.html''] \<notin> set (trace (init_state html_tree 10))"
    by (simp add: init_state_def)
  from no_match_no_write [OF h1 h2 h3 h4, of "[[''index.html''], [''b.html'']]" "[]"] h1 h2 h3 h4
  show ?thesis by blast
qed

subsection \<open>Nothing to do\<close>

text \<open>
  Claim C9. When no image qualifies, the run reports that there is nothing to do and
  ends normally; the tree is as it was and nothing is backed up, transcoded, deleted or
  rewritten.
\<close>

theorem no_images_nothing_done:
  assumes "find_images t = []"
  shows "script True es codec t now =
           Finished \<lparr>fs = t, clock = now, trace = [EvPrint NothingFound],
                     total_before = 0, total_after = 0, renamed = []\<rparr>"
  using assms by (simp add: script_def main_def emit_def init_state_def)

theorem no_images_nothing_done_witness:
  "find_images idle_tree = [] \<and>
   script True exts0 codec_ok idle_tree 4 =
     Finished \<lparr>fs = idle_tree, clock = 4, trace = [EvPrint NothingFound],
               total_before = 0, total_after = 0, renamed = []\<rparr>"
proof -
  have h: "find_images idle_tree = []" by code_simp
  from no_images_nothing_done [OF h, of exts0 codec_ok 4] h show ?thesis by blast
qed

subsection \<open>Rewriting twice\<close>

text \<open>
  Claim C10. Rewriting is idempotent on every text, because \<^verbatim>\<open>.webp\<close> is not an
  old extension and a rewritten quoted path is never matched again.

  The closing quote of a match is not scanned as an opening quote in the same pass, but
  it is in the next one: in \<^verbatim>\<open>"a.jpg"b.png"\<close> the first pass rewrites
  \<^verbatim>\<open>a.jpg\<close> only and the second pass rewrites \<^verbatim>\<open>b.png\<close>.
\<close>

theorem rewrite_twice_differs:
  "sub_text exts0 (dq # ''a.jpg'' @ dq # ''b.png'' @ [dq]) = dq # ''a.webp'' @ dq # ''b.png'' @ [dq] \<and>
   sub_text exts0 (sub_text exts0 (dq # ''a.jpg'' @ dq # ''b.png'' @ [dq])) =
     dq # ''a.webp'' @ dq # ''b.webp'' @ [dq] \<and>
   sub_text exts0 (sub_text exts0 (dq # ''a.jpg'' @ dq # ''b.png'' @ [dq])) \<noteq>
     sub_text exts0 (dq # ''a.jpg'' @ dq # ''b.png'' @ [dq])"
  by code_simp

text \<open>
  Claim C10, as amended: a rewritten quoted path (opening quote, body, \<^verbatim>\<open>.webp\<close>, closing
  quote) is never matched again at its opening quote, and rewriting twice yields the
  same as rewriting once exactly for the texts in which no match's closing quote is
  followed by a further body, old extension and quote (\<open>abut_free\<close>).
\<close>

theorem rewrite_idempotent_iff:
  assumes "set es = IMG_EXTS"
  shows "(shape q1 b e q2 \<longrightarrow> match_at es (q1 # b @ ''.webp'' @ q2 # r) = None) \<and>
         (sub_text es (sub_text es t) = sub_text es t \<longleftrightarrow> abut_free es t)"
proof
  show "shape q1 b e q2 \<longrightarrow> match_at es (q1 # b @ ''.webp'' @ q2 # r) = None"
    using webp_no_match [OF assms] by (simp add: shape_def list_ex_iff)
next
  show "sub_text es (sub_text es t) = sub_text es t \<longleftrightarrow> abut_free es t"
    using assms by (rule sub_text_idem_iff)
qed

theorem rewrite_idempotent_iff_witness:
  "set exts0 = IMG_EXTS \<and> shape dq ''a'' ''.jpg'' sq \<and>
   match_at exts0 (dq # ''a'' @ ''.webp'' @ sq # ''>'') = None \<and>
   abut_free exts0 (''<img src='' @ [dq] @ ''a.jpg'' @ [dq] @ '' alt='' @ [sq] @ ''b.PNG'' @ [sq] @ ''>'') \<and>
   sub_text exts0 (sub_text exts0
     (''<img src='' @ [dq] @ ''a.jpg'' @ [dq] @ '' alt='' @ [sq] @ ''b.PNG'' @ [sq] @ ''>'')) =
   sub_text exts0 (''<img src='' @ [dq] @ ''a.jpg'' @ [dq] @ '' alt='' @ [sq] @ ''b.PNG'' @ [sq] @ ''>'')"
proof -
  have h1: "set exts0 = IMG_EXTS" by (auto simp: exts0_def IMG_EXTS_def)
  have h2: "shape dq ''a'' ''.jpg'' sq"
    by (simp add: shape_def is_quote_def dq_def sq_def lower_chr_def IMG_EXTS_def)
  have h3: "abut_free exts0
     (''<img src='' @ [dq] @ ''a.jpg'' @ [dq] @ '' alt='' @ [sq] @ ''b.PNG'' @ [sq] @ ''>'')"
    by code_simp
  from rewrite_idempotent_iff [OF h1, of dq "''a''" "''.jpg''" sq "''>''"
      "''<img src='' @ [dq] @ ''a.jpg'' @ [dq] @ '' alt='' @ [sq] @ ''b.PNG'' @ [sq] @ ''>''"]
    h1 h2 h3
  show ?thesis by blast
qed

end
